theory Spec2Isabelle
  imports Main
begin

section \<open>The weighted automaton (fst::StdVectorFst as context\_graph.cc uses it)\<close>

text \<open>
  Scores are C++ \<open>float\<close>s. They are kept abstract: a type \<open>'w\<close> with a zero, an addition,
  a multiplication and a negation, of which no law is assumed. Every theorem below therefore
  holds for whatever these operations compute (IEEE single precision included); equality of
  weights is the equality of the values.

  An arc is \<open>fst::StdArc(ilabel, olabel, weight, nextstate)\<close>. A state holds its final
  weight and its arcs in insertion order; the final weight \<open>None\<close> stands for
  \<open>Weight::Zero()\<close> (the state is not final), and \<open>Weight::One()\<close> of the tropical
  semiring is \<open>Some 0\<close>.
\<close>

record 'w StdArc =
  ilabel :: int
  olabel :: int
  weight :: 'w
  nextstate :: int

record 'w VectorState =
  final :: "'w option"
  arcs :: "'w StdArc list"

record 'w StdVectorFst =
  fst_start :: int
  states :: "'w VectorState list"

definition One :: "'w::zero option" where
  "One = Some 0"

text \<open>
  Reading a state that the automaton does not have, or reading through a null
  \<open>graph_\<close>, is undefined behaviour in the source; the model makes each an error value.
\<close>

datatype error = NullSymbolTable | NullGraph | BadStateId

definition valid_state :: "'w StdVectorFst \<Rightarrow> int \<Rightarrow> bool" where
  "valid_state g s \<longleftrightarrow> 0 \<le> s \<and> s < int (length (states g))"

definition arcs_of :: "'w StdVectorFst \<Rightarrow> int \<Rightarrow> 'w StdArc list option" where
  "arcs_of g s = (if valid_state g s then Some (arcs (states g ! nat s)) else None)"

definition Final :: "'w StdVectorFst \<Rightarrow> int \<Rightarrow> error + 'w option" where
  "Final g s = (if valid_state g s then Inr (final (states g ! nat s)) else Inl BadStateId)"

section \<open>GetNextState\<close>

text \<open>
  The three out-parameters \<open>score\<close>, \<open>is_start_boundary\<close>, \<open>is_end_boundary\<close> are
  read-write: the function receives the values they hold on entry and the result record
  holds the values they have on return, next to the returned state.
\<close>

record 'w lookup =
  next_state :: int
  score :: 'w
  is_start_boundary :: bool
  is_end_boundary :: bool

text \<open>First loop (lines 94-111), over the arcs of \<open>cur_state\<close>.\<close>

fun scan_cur ::
  "'w::zero StdVectorFst \<Rightarrow> int \<Rightarrow> int \<Rightarrow> 'w StdArc list \<Rightarrow> 'w lookup \<Rightarrow> error + 'w lookup" where
  "scan_cur g cur_state word_id [] r = Inr r"
| "scan_cur g cur_state word_id (arc # rest) r =
     (if ilabel arc = 0 then scan_cur g cur_state word_id rest (r\<lparr>score := weight arc\<rparr>)
      else if ilabel arc = word_id then
        (case Final g (nextstate arc) of
           Inl e \<Rightarrow> Inl e
         | Inr fw \<Rightarrow>
             Inr (r\<lparr>next_state := nextstate arc,
                    score := weight arc,
                    is_start_boundary := (if cur_state = 0 then True else is_start_boundary r),
                    is_end_boundary := (if fw = One then True else is_end_boundary r)\<rparr>))
      else scan_cur g cur_state word_id rest r)"

text \<open>Second loop (lines 115-129), over the arcs of state 0.\<close>

fun scan_zero ::
  "'w::{zero,plus} StdVectorFst \<Rightarrow> int \<Rightarrow> int \<Rightarrow> 'w StdArc list \<Rightarrow> 'w lookup \<Rightarrow> error + 'w lookup" where
  "scan_zero g cur_state word_id [] r = Inr r"
| "scan_zero g cur_state word_id (arc # rest) r =
     (if ilabel arc = word_id then
        (case Final g (nextstate arc) of
           Inl e \<Rightarrow> Inl e
         | Inr fw \<Rightarrow>
             Inr (r\<lparr>next_state := nextstate arc,
                    score := score r + weight arc,
                    is_start_boundary := (if cur_state = 0 then True else is_start_boundary r),
                    is_end_boundary := (if fw = One then True else is_end_boundary r)\<rparr>))
      else scan_zero g cur_state word_id rest r)"

definition GetNextState ::
  "'w::{zero,plus} StdVectorFst option \<Rightarrow> int \<Rightarrow> int \<Rightarrow> 'w \<Rightarrow> bool \<Rightarrow> bool \<Rightarrow> error + 'w lookup" where
  "GetNextState graph cur_state word_id score0 sb0 eb0 =
     (case graph of
        None \<Rightarrow> Inl NullGraph
      | Some g \<Rightarrow>
          (case arcs_of g cur_state of
             None \<Rightarrow> Inl BadStateId
           | Some as \<Rightarrow>
               (case scan_cur g cur_state word_id as
                       \<lparr>next_state = 0, score = score0,
                        is_start_boundary = sb0, is_end_boundary = eb0\<rparr> of
                  Inl e \<Rightarrow> Inl e
                | Inr r \<Rightarrow>
                    if next_state r \<noteq> 0 then Inr r
                    else (case arcs_of g 0 of
                            None \<Rightarrow> Inl BadStateId
                          | Some as0 \<Rightarrow> scan_zero g cur_state word_id as0 r))))"

section \<open>The symbol table (fst::SymbolTable as context\_graph.cc uses it)\<close>

text \<open>
  The vocabulary maps token strings to ids. \<open>Find\<close> returns the id, or \<open>-1\<close>
  (\<open>kNoSymbol\<close>) for an unknown token; \<open>AddSymbol\<close> returns the id of a token that is
  present and gives an absent one the next available id.
\<close>

record SymbolTable =
  symbols :: "string \<rightharpoonup> int"
  available_key :: int

definition Find :: "SymbolTable \<Rightarrow> string \<Rightarrow> int" where
  "Find st w = (case symbols st w of None \<Rightarrow> - 1 | Some k \<Rightarrow> k)"

definition AddSymbol :: "SymbolTable \<Rightarrow> string \<Rightarrow> int \<times> SymbolTable" where
  "AddSymbol st w =
     (case symbols st w of
        Some k \<Rightarrow> (k, st)
      | None \<Rightarrow> (available_key st,
                 st\<lparr>symbols := (symbols st)(w \<mapsto> available_key st),
                    available_key := available_key st + 1\<rparr>))"

section \<open>SplitUTF8StringToWords\<close>

text \<open>
  The helpers of \<open>utils/string.h\<close> are not part of the source at hand; the model takes
  them as parameters, so every theorem holds for whatever they compute. A \<open>std::string\<close>
  is its list of bytes.
\<close>

record string_utils =
  Trim :: "string \<Rightarrow> string"
  SplitUTF8StringToChars :: "string \<Rightarrow> string list"
  IsAlpha :: "string \<Rightarrow> bool"
  UTF8StringLength :: "string \<Rightarrow> nat"
  kSpaceSymbol :: string

text \<open>\<open>word[0]\<close>: when the string is empty, \<open>operator[]\<close> at its size is the null character.\<close>

definition first_byte :: "string \<Rightarrow> char" where
  "first_byte w = (case w of [] \<Rightarrow> CHR 0x00 | c # _ \<Rightarrow> c)"

text \<open>
  The inner loop (lines 143-177), from one value of \<open>end\<close> on, for as long as
  \<open>end > start\<close>. Both \<open>continue\<close>s run the decrement of \<open>end\<close> and test the condition
  against the \<open>start\<close> they have just assigned; the \<open>break\<close> leaves \<open>start\<close> as it is.
  The function returns \<open>start\<close>, \<open>beginning\<close>, \<open>no_oov\<close> and \<open>words\<close> as the loop leaves
  them. Here \<open>start < end \<le> chars.size()\<close>, so that \<open>end - 1\<close> does not wrap and every
  \<open>chars[i]\<close> is in range.
\<close>

function scan_ends ::
  "string_utils \<Rightarrow> SymbolTable \<Rightarrow> string list \<Rightarrow> nat \<Rightarrow> nat \<Rightarrow> bool \<Rightarrow> bool \<Rightarrow> string list
   \<Rightarrow> nat \<times> bool \<times> bool \<times> string list" where
  "scan_ends U st chars start end_pos beginning no_oov words =
     (if \<not> end_pos > start then (start, beginning, no_oov, words)
      else
        let word = concat (take (end_pos - start) (drop start chars)) in
        if word = '' '' then
          scan_ends U st chars end_pos (end_pos - 1) True no_oov words
        else
          let word = (if IsAlpha U word \<and> beginning then kSpaceSymbol U @ word else word) in
          if Find st word \<noteq> - 1 then
            scan_ends U st chars end_pos (end_pos - 1) False no_oov (words @ [word])
          else if end_pos = start + 1 then
            if first_byte word = first_byte (kSpaceSymbol U) then
              (start, False, no_oov, words @ [kSpaceSymbol U])
            else
              scan_ends U st chars (start + 1) (end_pos - 1) beginning False words
          else
            scan_ends U st chars start (end_pos - 1) beginning no_oov words)"
  by pat_completeness auto
termination
  by (relation "measure (\<lambda>(U, st, chars, start, end_pos, beginning, no_oov, words). end_pos)") auto

text \<open>
  The outer loop (lines 142-178) has no increment of its own: it runs the inner loop again
  for as long as \<open>start < chars.size()\<close>. Nothing in its text bounds the number of rounds,
  so it is a partial function: \<open>None\<close> is the run that never leaves the loop.
\<close>

partial_function (option) scan_starts ::
  "string_utils \<Rightarrow> SymbolTable \<Rightarrow> string list \<Rightarrow> nat \<Rightarrow> bool \<Rightarrow> bool \<Rightarrow> string list
   \<Rightarrow> (bool \<times> string list) option" where
  "scan_starts U st chars start beginning no_oov words =
     (if start < length chars then
        (case scan_ends U st chars start (length chars) beginning no_oov words of
           (start', beginning', no_oov', words') \<Rightarrow>
             scan_starts U st chars start' beginning' no_oov' words')
      else Some (no_oov, words))"

declare scan_starts.simps [code]

text \<open>
  The result is the returned flag \<open>no_oov\<close> and the vector \<open>words\<close>, which the function
  appends to.
\<close>

definition SplitUTF8StringToWords ::
  "string_utils \<Rightarrow> string \<Rightarrow> SymbolTable \<Rightarrow> string list \<Rightarrow> (bool \<times> string list) option" where
  "SplitUTF8StringToWords U str symbol_table words =
     scan_starts U symbol_table (SplitUTF8StringToChars U (Trim U str)) 0 True True words"

section \<open>BuildContextGraph\<close>

text \<open>
  \<open>ContextConfig\<close> and the members of \<open>ContextGraph\<close> are declared in
  \<open>decoder/context_graph.h\<close>, which is not part of the source at hand: the two limits are
  taken as \<open>int\<close>s and the two scores as \<open>float\<close>s. A smart pointer is an option, null
  being \<open>None\<close>.
\<close>

record 'w ContextConfig =
  max_contexts :: int
  max_context_length :: int
  context_score :: 'w
  incremental_context_score :: 'w

record 'w ContextGraph =
  m_config :: "'w ContextConfig"
  m_graph :: "'w StdVectorFst option"
  m_symbol_table :: "SymbolTable option"
  m_start_tag_id :: int
  m_end_tag_id :: int

text \<open>The mutators of \<open>fst::StdVectorFst\<close> that the builder calls.\<close>

definition new_StdVectorFst :: "'w StdVectorFst" where
  "new_StdVectorFst = \<lparr>fst_start = - 1, states = []\<rparr>"

definition AddState :: "'w StdVectorFst \<Rightarrow> int \<times> 'w StdVectorFst" where
  "AddState g = (int (length (states g)), g\<lparr>states := states g @ [\<lparr>final = None, arcs = []\<rparr>]\<rparr>)"

definition SetStart :: "'w StdVectorFst \<Rightarrow> int \<Rightarrow> 'w StdVectorFst" where
  "SetStart g s = g\<lparr>fst_start := s\<rparr>"

definition SetFinal :: "'w StdVectorFst \<Rightarrow> int \<Rightarrow> 'w option \<Rightarrow> 'w StdVectorFst" where
  "SetFinal g s w =
     (if valid_state g s then g\<lparr>states := (states g)[nat s := (states g ! nat s)\<lparr>final := w\<rparr>]\<rparr>
      else g)"

definition AddArc :: "'w StdVectorFst \<Rightarrow> int \<Rightarrow> 'w StdArc \<Rightarrow> 'w StdVectorFst" where
  "AddArc g s arc =
     (if valid_state g s
      then g\<lparr>states := (states g)[nat s := (states g ! nat s)\<lparr>arcs := arcs (states g ! nat s) @ [arc]\<rparr>]\<rparr>
      else g)"

text \<open>
  The score of the token at index \<open>i\<close> (lines 68-73). \<open>to_float\<close> is the conversion of
  a \<open>size_t\<close> to \<open>float\<close> that the mixed products perform.
\<close>

definition token_score ::
  "'w::{plus,times} ContextConfig \<Rightarrow> string_utils \<Rightarrow> (nat \<Rightarrow> 'w) \<Rightarrow> nat \<Rightarrow> string \<Rightarrow> 'w" where
  "token_score cfg U to_float i word =
     (let score = (to_float i * incremental_context_score cfg + context_score cfg)
                    * to_float (UTF8StringLength U word)
      in if IsAlpha U word \<or> first_byte word = first_byte (kSpaceSymbol U)
         then to_float i * incremental_context_score cfg + context_score cfg
         else score)"

text \<open>
  The loop over the words of one phrase (lines 66-84), from index \<open>i\<close> on. The body runs
  only when \<open>i < words.size()\<close>, so that \<open>words.size() - 1\<close> does not wrap.
\<close>

function add_words ::
  "'w::{plus,times,uminus} ContextConfig \<Rightarrow> string_utils \<Rightarrow> (nat \<Rightarrow> 'w) \<Rightarrow> SymbolTable \<Rightarrow> int
   \<Rightarrow> string list \<Rightarrow> nat \<Rightarrow> int \<Rightarrow> 'w \<Rightarrow> 'w StdVectorFst \<Rightarrow> 'w StdVectorFst" where
  "add_words cfg U to_float st start_state words i prev_state escape_score ofst =
     (if i < length words then
        let word_id = Find st (words ! i);
            score = token_score cfg U to_float i (words ! i);
            (next_state, ofst) =
               (if i < length words - 1 then AddState ofst else (start_state, ofst));
            ofst = AddArc ofst prev_state
                     \<lparr>ilabel = word_id, olabel = word_id, weight = score, nextstate = next_state\<rparr>;
            ofst = (if i > 0
                    then AddArc ofst prev_state
                           \<lparr>ilabel = 0, olabel = 0, weight = - escape_score, nextstate = start_state\<rparr>
                    else ofst)
        in add_words cfg U to_float st start_state words (i + 1) next_state (escape_score + score) ofst
      else ofst)"
  by pat_completeness auto
termination
  by (relation "measure (\<lambda>(cfg, U, to_float, st, start_state, words, i, prev_state, escape_score, ofst).
                  length words - i)") auto

text \<open>
  The loop over the phrases (lines 48-85). \<open>context.size()\<close> is the number of bytes, a
  \<open>size_t\<close>; the comparison converts the limit to \<open>size_t\<close>, that is modulo \<open>2 ^ 64\<close>.
  The result is \<open>None\<close> when the tokenizer does not return for a phrase.
\<close>

fun add_contexts ::
  "'w::{zero,plus,times,uminus} ContextConfig \<Rightarrow> string_utils \<Rightarrow> (nat \<Rightarrow> 'w) \<Rightarrow> SymbolTable \<Rightarrow> int
   \<Rightarrow> string list \<Rightarrow> int \<Rightarrow> 'w StdVectorFst \<Rightarrow> 'w StdVectorFst option" where
  "add_contexts cfg U to_float st start_state [] count ofst = Some ofst"
| "add_contexts cfg U to_float st start_state (context # rest) count ofst =
     (if int (length context) > max_context_length cfg mod 2 ^ 64 then
        add_contexts cfg U to_float st start_state rest count ofst
      else if count + 1 > max_contexts cfg then Some ofst
      else
        (case SplitUTF8StringToWords U (Trim U context) st [] of
           None \<Rightarrow> None
         | Some (no_oov, words) \<Rightarrow>
             if \<not> no_oov then add_contexts cfg U to_float st start_state rest (count + 1) ofst
             else add_contexts cfg U to_float st start_state rest (count + 1)
                    (add_words cfg U to_float st start_state words 0 start_state 0 ofst)))"

text \<open>Lines 40-85: the automaton \<open>ofst\<close> that is handed to \<open>fst::Determinize\<close>.\<close>

definition BuildOfst ::
  "'w::{zero,plus,times,uminus} ContextConfig \<Rightarrow> string_utils \<Rightarrow> (nat \<Rightarrow> 'w) \<Rightarrow> SymbolTable
   \<Rightarrow> string list \<Rightarrow> 'w StdVectorFst option" where
  "BuildOfst cfg U to_float st query_contexts =
     (let (start_state, ofst) = AddState new_StdVectorFst;
          ofst = SetStart ofst start_state;
          ofst = SetFinal ofst start_state One
      in add_contexts cfg U to_float st start_state query_contexts 0 ofst)"

text \<open>
  The whole of \<open>BuildContextGraph\<close>. \<open>fst::Determinize\<close> belongs to OpenFst and is a
  parameter. The \<open>CHECK\<close> on the symbol table is fatal: an error value.
\<close>

definition BuildContextGraph ::
  "string_utils \<Rightarrow> (nat \<Rightarrow> 'w) \<Rightarrow> ('w StdVectorFst \<Rightarrow> 'w StdVectorFst)
   \<Rightarrow> 'w::{zero,plus,times,uminus} ContextGraph \<Rightarrow> string list \<Rightarrow> SymbolTable option
   \<Rightarrow> (error + 'w ContextGraph) option" where
  "BuildContextGraph U to_float Determinize this query_contexts symbol_table =
     (case symbol_table of
        None \<Rightarrow> Some (Inl NullSymbolTable)
      | Some st \<Rightarrow>
          let (start_tag, st) = AddSymbol st ''<context>'';
              (end_tag, st) = AddSymbol st ''</context>'';
              this = this\<lparr>m_start_tag_id := start_tag, m_end_tag_id := end_tag,
                          m_symbol_table := Some st\<rparr>
          in if query_contexts = [] then Some (Inr (this\<lparr>m_graph := None\<rparr>))
             else (case BuildOfst (m_config this) U to_float st query_contexts of
                     None \<Rightarrow> None
                   | Some ofst \<Rightarrow> Some (Inr (this\<lparr>m_graph := Some (Determinize ofst)\<rparr>))))"

text \<open>The two loop equations are unfolded by hand.\<close>

declare scan_ends.simps [simp del]

declare add_words.simps [simp del]

text \<open>
  The constructor (line 26) stores the configuration; the automaton and the symbol table
  start out null.
\<close>

definition new_ContextGraph :: "'w ContextConfig \<Rightarrow> 'w ContextGraph" where
  "new_ContextGraph config =
     \<lparr>m_config = config, m_graph = None, m_symbol_table = None,
      m_start_tag_id = 0, m_end_tag_id = 0\<rparr>"

section \<open>Notions used to state the properties\<close>

subsection \<open>Lookup\<close>

text \<open>
  The escape baseline: the weight of the last escape arc among the arcs scanned, or the
  score on entry when there is none.
\<close>

definition baseline :: "'w \<Rightarrow> 'w StdArc list \<Rightarrow> 'w" where
  "baseline sc as = foldl (\<lambda>x a. if ilabel a = 0 then weight a else x) sc as"

text \<open>
  Two runs of a scan agree: they return the same state, and the same value in each
  out-parameter on which they agreed on entry.
\<close>

definition agree :: "'w lookup \<Rightarrow> 'w lookup \<Rightarrow> 'w lookup \<Rightarrow> 'w lookup \<Rightarrow> bool" where
  "agree r1 r2 r1' r2' \<longleftrightarrow>
     next_state r1' = next_state r2' \<and>
     (score r1 = score r2 \<longrightarrow> score r1' = score r2') \<and>
     (is_start_boundary r1 = is_start_boundary r2 \<longrightarrow> is_start_boundary r1' = is_start_boundary r2') \<and>
     (is_end_boundary r1 = is_end_boundary r2 \<longrightarrow> is_end_boundary r1' = is_end_boundary r2')"

text \<open>
  A walk from \<open>q\<close> to \<open>q'\<close> along arcs that carry the given labels and weights, in
  order.
\<close>

fun walk :: "'w StdVectorFst \<Rightarrow> int \<Rightarrow> (int \<times> 'w) list \<Rightarrow> int \<Rightarrow> bool" where
  "walk g q [] q' \<longleftrightarrow> q = q'"
| "walk g q ((l, w) # rest) q' \<longleftrightarrow>
     (\<exists>a\<in>set (case arcs_of g q of None \<Rightarrow> [] | Some as \<Rightarrow> as).
        ilabel a = l \<and> weight a = w \<and> walk g (nextstate a) rest q')"


subsection \<open>Tokenizer\<close>

text \<open>
  The tokenizer is stuck at \<open>start\<close> when no substring that begins there is a space or a
  vocabulary entry, and the codepoint there begins with the first byte of
  \<open>kSpaceSymbol\<close>.
\<close>

definition substring :: "string list \<Rightarrow> nat \<Rightarrow> nat \<Rightarrow> string" where
  "substring chars start end_pos = concat (take (end_pos - start) (drop start chars))"

definition stuck_at :: "string_utils \<Rightarrow> SymbolTable \<Rightarrow> string list \<Rightarrow> nat \<Rightarrow> bool" where
  "stuck_at U st chars start \<longleftrightarrow>
     start < length chars \<and>
     (\<forall>e\<in>set [Suc start..<Suc (length chars)].
         substring chars start e \<noteq> '' '' \<and> Find st (substring chars start e) = - 1) \<and>
     first_byte (substring chars start (Suc start)) = first_byte (kSpaceSymbol U)"

subsection \<open>The automaton of a list of phrases, in closed form\<close>

text \<open>
  The score that has accrued before the token at index \<open>k\<close>: the scores of the tokens
  before it, added from the left to the initial 0, as \<open>escape_score\<close> is.
\<close>

definition prefix_score ::
  "'w::{zero,plus,times} ContextConfig \<Rightarrow> string_utils \<Rightarrow> (nat \<Rightarrow> 'w) \<Rightarrow> string list \<Rightarrow> nat \<Rightarrow> 'w" where
  "prefix_score cfg U to_float words k =
     foldl (+) 0 (map (\<lambda>i. token_score cfg U to_float i (words ! i)) [0..<k])"

text \<open>
  The state of a phrase after its first \<open>k\<close> tokens, when \<open>base\<close> is the state that the
  builder creates for it first: state 0 before the first and after the last token, the
  \<open>k\<close>-th created state in between.
\<close>

definition state_after :: "nat \<Rightarrow> string list \<Rightarrow> nat \<Rightarrow> int" where
  "state_after base words k = (if k = 0 \<or> length words \<le> k then 0 else int (base + k - 1))"

text \<open>The arc of the token at index \<open>i\<close>, and the escape arc added with it.\<close>

definition phrase_arc ::
  "'w::{plus,times} ContextConfig \<Rightarrow> string_utils \<Rightarrow> (nat \<Rightarrow> 'w) \<Rightarrow> SymbolTable \<Rightarrow> nat \<Rightarrow> string list
   \<Rightarrow> nat \<Rightarrow> 'w StdArc" where
  "phrase_arc cfg U to_float st base words i =
     \<lparr>ilabel = Find st (words ! i), olabel = Find st (words ! i),
      weight = token_score cfg U to_float i (words ! i),
      nextstate = state_after base words (i + 1)\<rparr>"

definition escape_arc ::
  "'w::{zero,plus,times,uminus} ContextConfig \<Rightarrow> string_utils \<Rightarrow> (nat \<Rightarrow> 'w) \<Rightarrow> string list
   \<Rightarrow> nat \<Rightarrow> 'w StdArc" where
  "escape_arc cfg U to_float words k =
     \<lparr>ilabel = 0, olabel = 0, weight = - prefix_score cfg U to_float words k, nextstate = 0\<rparr>"

text \<open>The state after \<open>k\<close> tokens, for \<open>k\<close> from 1 to below the length, when the phrase is done.\<close>

definition chain_state ::
  "'w::{zero,plus,times,uminus} ContextConfig \<Rightarrow> string_utils \<Rightarrow> (nat \<Rightarrow> 'w) \<Rightarrow> SymbolTable \<Rightarrow> nat
   \<Rightarrow> string list \<Rightarrow> nat \<Rightarrow> 'w VectorState" where
  "chain_state cfg U to_float st base words k =
     \<lparr>final = None,
      arcs = [phrase_arc cfg U to_float st base words k, escape_arc cfg U to_float words k]\<rparr>"

text \<open>
  The automaton with one more phrase: state 0 gets the arc of the first token, and the
  states after 1, 2, ... tokens are appended.
\<close>

definition with_phrase ::
  "'w::{zero,plus,times,uminus} ContextConfig \<Rightarrow> string_utils \<Rightarrow> (nat \<Rightarrow> 'w) \<Rightarrow> SymbolTable
   \<Rightarrow> 'w StdVectorFst \<Rightarrow> string list \<Rightarrow> 'w StdVectorFst" where
  "with_phrase cfg U to_float st g words =
     (if words = [] then g
      else g\<lparr>states :=
             (states g)[0 := (states g ! 0)
                \<lparr>arcs := arcs (states g ! 0) @
                   [phrase_arc cfg U to_float st (length (states g)) words 0]\<rparr>]
             @ map (chain_state cfg U to_float st (length (states g)) words) [1..<length words]\<rparr>)"

text \<open>
  What the loop over the phrases does with the list of phrases: a phrase is too long by its
  number of bytes; the budget is spent on the phrases that are not too long; a phrase is
  accepted when the tokenizer resolves all of it.
\<close>

definition too_long :: "'w ContextConfig \<Rightarrow> string \<Rightarrow> bool" where
  "too_long cfg context \<longleftrightarrow> int (length context) > max_context_length cfg mod 2 ^ 64"

definition budgeted :: "'w ContextConfig \<Rightarrow> int \<Rightarrow> string list \<Rightarrow> string list" where
  "budgeted cfg count query_contexts =
     take (nat (max_contexts cfg - count)) (filter (\<lambda>c. \<not> too_long cfg c) query_contexts)"

definition tokens :: "string_utils \<Rightarrow> SymbolTable \<Rightarrow> string \<Rightarrow> (bool \<times> string list) option" where
  "tokens U st context = SplitUTF8StringToWords U (Trim U context) st []"

definition accepted_words :: "string_utils \<Rightarrow> SymbolTable \<Rightarrow> string list \<Rightarrow> string list list" where
  "accepted_words U st cs =
     concat (map (\<lambda>c. case tokens U st c of Some (True, ws) \<Rightarrow> [ws] | _ \<Rightarrow> []) cs)"

text \<open>The automaton before the first phrase (lines 40-44), and after a list of phrases.\<close>

definition start_graph :: "'w::zero StdVectorFst" where
  "start_graph = \<lparr>fst_start = 0, states = [\<lparr>final = One, arcs = []\<rparr>]\<rparr>"

definition graph_of ::
  "'w::{zero,plus,times,uminus} ContextConfig \<Rightarrow> string_utils \<Rightarrow> (nat \<Rightarrow> 'w) \<Rightarrow> SymbolTable
   \<Rightarrow> string list list \<Rightarrow> 'w StdVectorFst" where
  "graph_of cfg U to_float st wss = foldl (with_phrase cfg U to_float st) start_graph wss"

text \<open>The labels and scores of the tokens from index \<open>i\<close> to below \<open>j\<close>.\<close>

definition phrase_path ::
  "'w::{plus,times} ContextConfig \<Rightarrow> string_utils \<Rightarrow> (nat \<Rightarrow> 'w) \<Rightarrow> SymbolTable \<Rightarrow> string list
   \<Rightarrow> nat \<Rightarrow> nat \<Rightarrow> (int \<times> 'w) list" where
  "phrase_path cfg U to_float st words i j =
     map (\<lambda>k. (Find st (words ! k), token_score cfg U to_float k (words ! k))) [i..<j]"

text \<open>
  The first state created for the phrase at position \<open>m\<close> of the list: the builder
  creates one state less than a phrase has tokens.
\<close>

definition offset :: "string list list \<Rightarrow> nat \<Rightarrow> nat" where
  "offset wss m = 1 + sum_list (map (\<lambda>ws. length ws - 1) (take m wss))"

text \<open>The automaton holds the arcs and states of a phrase whose first state is \<open>base\<close>.\<close>

definition has_phrase ::
  "'w::{zero,plus,times,uminus} ContextConfig \<Rightarrow> string_utils \<Rightarrow> (nat \<Rightarrow> 'w) \<Rightarrow> SymbolTable
   \<Rightarrow> 'w StdVectorFst \<Rightarrow> nat \<Rightarrow> string list \<Rightarrow> bool" where
  "has_phrase cfg U to_float st g base words \<longleftrightarrow>
     states g \<noteq> [] \<and> 1 \<le> base \<and>
     (words \<noteq> [] \<longrightarrow> phrase_arc cfg U to_float st base words 0 \<in> set (arcs (states g ! 0))) \<and>
     (\<forall>k. 1 \<le> k \<and> k < length words \<longrightarrow>
          base + k - 1 < length (states g) \<and>
          states g ! (base + k - 1) = chain_state cfg U to_float st base words k)"

section \<open>A concrete setting\<close>

text \<open>
  Modelled from the spec: the helpers of \<open>utils/string.h\<close> (\<open>Trim\<close>,
  \<open>SplitUTF8StringToChars\<close>, \<open>IsAlpha\<close>, \<open>UTF8StringLength\<close>, \<open>kSpaceSymbol\<close>) are
  missing from the source at hand. The spec calls the segmentation codepoint-aware and
  the classification alphabetic; the comments of the source name the marker, U+2581.
  Here a codepoint is a UTF-8 lead byte with its continuation bytes, a word is alphabetic
  when all its bytes are ASCII letters, and trimming removes ASCII white space at both
  ends.
\<close>

fun lead_length :: "char \<Rightarrow> nat" where
  "lead_length (Char b0 b1 b2 b3 b4 b5 b6 b7) =
     (if \<not> b7 then 1 else if \<not> b5 then 2 else if \<not> b4 then 3 else 4)"

fun utf8_chars :: "string \<Rightarrow> string list" where
  "utf8_chars [] = []"
| "utf8_chars (c # cs) =
     (c # take (lead_length c - 1) cs) # utf8_chars (drop (lead_length c - 1) cs)"

definition is_space :: "char \<Rightarrow> bool" where
  "is_space c \<longleftrightarrow> c \<in> set [CHR '' '', CHR 0x09, CHR 0x0A, CHR 0x0B, CHR 0x0C, CHR 0x0D]"

definition ascii_letter :: "char \<Rightarrow> bool" where
  "ascii_letter c \<longleftrightarrow> c \<in> set (''abcdefghijklmnopqrstuvwxyz'' @ ''ABCDEFGHIJKLMNOPQRSTUVWXYZ'')"

definition utf8_utils :: string_utils where
  "utf8_utils =
     \<lparr>Trim = (\<lambda>s. rev (dropWhile is_space (rev (dropWhile is_space s)))),
      SplitUTF8StringToChars = utf8_chars,
      IsAlpha = list_all ascii_letter,
      UTF8StringLength = (\<lambda>s. length (utf8_chars s)),
      kSpaceSymbol = [CHR 0xE2, CHR 0x96, CHR 0x81]\<rparr>"

text \<open>
  A vocabulary of three tokens: the marked words \<open>hello\<close> and \<open>world\<close>, and a token
  of two three-byte codepoints (U+4F60 U+597D).
\<close>

definition nihao :: string where
  "nihao = [CHR 0xE4, CHR 0xBD, CHR 0xA0, CHR 0xE5, CHR 0xA5, CHR 0xBD]"

definition hello_table :: SymbolTable where
  "hello_table =
     \<lparr>symbols = [([CHR 0xE2, CHR 0x96, CHR 0x81] @ ''hello'') \<mapsto> 1,
                 ([CHR 0xE2, CHR 0x96, CHR 0x81] @ ''world'') \<mapsto> 2,
                 nihao \<mapsto> 3],
      available_key = 4\<rparr>"

text \<open>
  A configuration with integer scores, and the automata that the builder constructs under
  it for the phrases \<open>hello\<close>, \<open>hello world\<close>, for the two-codepoint token, and for no
  accepted phrase.
\<close>

definition example_config :: "int ContextConfig" where
  "example_config =
     \<lparr>max_contexts = 1, max_context_length = 11, context_score = 3,
      incremental_context_score = 1\<rparr>"

definition hello_graph :: "int StdVectorFst" where
  "hello_graph =
     \<lparr>fst_start = 0,
      states = [\<lparr>final = Some 0,
                 arcs = [\<lparr>ilabel = 1, olabel = 1, weight = 3, nextstate = 0\<rparr>]\<rparr>]\<rparr>"

definition hello_world_graph :: "int StdVectorFst" where
  "hello_world_graph =
     \<lparr>fst_start = 0,
      states = [\<lparr>final = Some 0,
                 arcs = [\<lparr>ilabel = 1, olabel = 1, weight = 3, nextstate = 1\<rparr>]\<rparr>,
                \<lparr>final = None,
                 arcs = [\<lparr>ilabel = 2, olabel = 2, weight = 4, nextstate = 0\<rparr>,
                         \<lparr>ilabel = 0, olabel = 0, weight = - 3, nextstate = 0\<rparr>]\<rparr>]\<rparr>"


definition no_arcs_graph :: "int StdVectorFst" where
  "no_arcs_graph = \<lparr>fst_start = 0, states = [\<lparr>final = Some 0, arcs = []\<rparr>]\<rparr>"

text \<open>\<open>BuildContextGraph\<close> on a fresh object with an empty phrase list.\<close>

definition empty_build :: "(error + int ContextGraph) option" where
  "empty_build =
     BuildContextGraph utf8_utils int id (new_ContextGraph example_config) [] (Some hello_table)"

section \<open>Lemmas about the lookup\<close>

lemma baseline_simps [simp]:
  "baseline sc [] = sc"
  "baseline sc (a # as) = baseline (if ilabel a = 0 then weight a else sc) as"
  by (simp_all add: baseline_def)

lemma scan_cur_no_match:
  "\<forall>a\<in>set as. ilabel a = 0 \<or> ilabel a \<noteq> t \<Longrightarrow>
   scan_cur g s t as r = Inr (r\<lparr>score := baseline (score r) as\<rparr>)"
  by (induction as arbitrary: r) auto

lemma scan_cur_match:
  "t \<noteq> 0 \<Longrightarrow> \<forall>a\<in>set pre. ilabel a \<noteq> t \<Longrightarrow> ilabel arc = t \<Longrightarrow>
   scan_cur g s t (pre @ arc # post) r =
     (case Final g (nextstate arc) of
        Inl e \<Rightarrow> Inl e
      | Inr fw \<Rightarrow> Inr (r\<lparr>next_state := nextstate arc, score := weight arc,
                         is_start_boundary := (s = 0 \<or> is_start_boundary r),
                         is_end_boundary := (fw = One \<or> is_end_boundary r)\<rparr>))"
  by (induction pre arbitrary: r) (auto split: sum.splits)

lemma scan_zero_no_match:
  "\<forall>a\<in>set as. ilabel a \<noteq> t \<Longrightarrow> scan_zero g s t as r = Inr r"
  by (induction as) auto

lemma scan_zero_match:
  "\<forall>a\<in>set pre. ilabel a \<noteq> t \<Longrightarrow> ilabel arc = t \<Longrightarrow>
   scan_zero g s t (pre @ arc # post) r =
     (case Final g (nextstate arc) of
        Inl e \<Rightarrow> Inl e
      | Inr fw \<Rightarrow> Inr (r\<lparr>next_state := nextstate arc, score := score r + weight arc,
                         is_start_boundary := (s = 0 \<or> is_start_boundary r),
                         is_end_boundary := (fw = One \<or> is_end_boundary r)\<rparr>))"
  by (induction pre) (auto split: sum.splits)

lemma scan_cur_flags:
  "scan_cur g s t as r = Inr r' \<Longrightarrow>
   (is_start_boundary r \<longrightarrow> is_start_boundary r') \<and> (is_end_boundary r \<longrightarrow> is_end_boundary r')"
  by (induction as arbitrary: r) (auto split: if_splits sum.splits)

lemma scan_zero_flags:
  "scan_zero g s t as r = Inr r' \<Longrightarrow>
   (is_start_boundary r \<longrightarrow> is_start_boundary r') \<and> (is_end_boundary r \<longrightarrow> is_end_boundary r')"
  by (induction as) (auto split: if_splits sum.splits)

lemma scan_cur_two_runs:
  "next_state r1 = next_state r2 \<Longrightarrow>
   (case (scan_cur g s t as r1, scan_cur g s t as r2) of
      (Inl e1, Inl e2) \<Rightarrow> e1 = e2
    | (Inr r1', Inr r2') \<Rightarrow> agree r1 r2 r1' r2'
    | _ \<Rightarrow> False)"
proof (induction as arbitrary: r1 r2)
  case Nil
  then show ?case by (simp add: agree_def)
next
  case (Cons a as)
  show ?case
  proof (cases "ilabel a = 0")
    case True
    have "next_state (r1\<lparr>score := weight a\<rparr>) = next_state (r2\<lparr>score := weight a\<rparr>)"
      using Cons.prems by simp
    from Cons.IH[OF this] True show ?thesis
      by (auto simp: agree_def split: sum.splits)
  next
    case False
    with Cons show ?thesis
      by (auto simp: agree_def split: sum.splits)
  qed
qed

lemma scan_zero_two_runs:
  "next_state r1 = next_state r2 \<Longrightarrow>
   (case (scan_zero g s t as r1, scan_zero g s t as r2) of
      (Inl e1, Inl e2) \<Rightarrow> e1 = e2
    | (Inr r1', Inr r2') \<Rightarrow> agree r1 r2 r1' r2'
    | _ \<Rightarrow> False)"
  by (induction as) (auto simp: agree_def split: sum.splits)


lemmas graph_eval = GetNextState_def arcs_of_def valid_state_def Final_def One_def

text \<open>
  A matching arc is taken as it is, with its weight alone, when its destination is not
  state 0, or when state 0 has no arc with the same label.
\<close>

lemma GetNextState_first_matching_arc:
  assumes arcs: "arcs_of g s = Some (pre @ arc # post)"
    and first: "\<forall>a\<in>set pre. ilabel a \<noteq> t"
    and lab: "ilabel arc = t" "t \<noteq> 0"
    and dest: "valid_state g (nextstate arc)"
    and norescan: "nextstate arc \<noteq> 0 \<or> (\<forall>a\<in>set (arcs (states g ! 0)). ilabel a \<noteq> t)"
  shows "GetNextState (Some g) s t sc sb eb =
           Inr \<lparr>next_state = nextstate arc, score = weight arc,
                is_start_boundary = (sb \<or> s = 0),
                is_end_boundary = (eb \<or> final (states g ! nat (nextstate arc)) = One)\<rparr>"
proof -
  let ?r0 = "\<lparr>next_state = 0, score = sc, is_start_boundary = sb, is_end_boundary = eb\<rparr>"
  let ?res = "\<lparr>next_state = nextstate arc, score = weight arc,
                is_start_boundary = (sb \<or> s = 0),
                is_end_boundary = (eb \<or> final (states g ! nat (nextstate arc)) = One)\<rparr>"
  have scan: "scan_cur g s t (pre @ arc # post) ?r0 = Inr ?res"
    using scan_cur_match[OF lab(2) first lab(1), of g s post ?r0] dest
    by (auto simp: Final_def)
  show ?thesis
  proof (cases "nextstate arc = 0")
    case False
    with scan arcs show ?thesis by (simp add: GetNextState_def)
  next
    case True
    with norescan have none: "\<forall>a\<in>set (arcs (states g ! 0)). ilabel a \<noteq> t" by simp
    from True dest have "arcs_of g 0 = Some (arcs (states g ! 0))"
      by (simp add: arcs_of_def)
    with scan arcs True scan_zero_no_match[OF none, of g s ?res] show ?thesis
      by (simp add: GetNextState_def)
  qed
qed

section \<open>Lemmas about the tokenizer\<close>

lemma scan_ends_stuck:
  assumes "start < end_pos"
    and "\<forall>e. start < e \<and> e \<le> end_pos \<longrightarrow>
           substring chars start e \<noteq> '' '' \<and> Find st (substring chars start e) = - 1"
    and "first_byte (substring chars start (Suc start)) = first_byte (kSpaceSymbol U)"
  shows "scan_ends U st chars start end_pos False no_oov words =
           (start, False, no_oov, words @ [kSpaceSymbol U])"
  using assms(1,2)
proof (induction "end_pos - start" arbitrary: end_pos)
  case 0
  then show ?case by simp
next
  case (Suc d)
  from Suc.prems have here: "substring chars start end_pos \<noteq> '' ''"
    "Find st (substring chars start end_pos) = - 1"
    by auto
  show ?case
  proof (cases "end_pos = start + 1")
    case True
    with here assms(3) Suc.prems(1) show ?thesis
      by (subst scan_ends.simps) (simp add: substring_def)
  next
    case False
    with Suc.prems(1) have lt: "start < end_pos - 1" by simp
    from Suc.hyps(2) have d: "d = end_pos - 1 - start" by simp
    have below: "\<forall>e. start < e \<and> e \<le> end_pos - 1 \<longrightarrow>
           substring chars start e \<noteq> '' '' \<and> Find st (substring chars start e) = - 1"
    proof (intro allI impI)
      fix e assume "start < e \<and> e \<le> end_pos - 1"
      then have "start < e \<and> e \<le> end_pos" by arith
      with Suc.prems(2)
      show "substring chars start e \<noteq> '' '' \<and> Find st (substring chars start e) = - 1"
        by blast
    qed
    have "scan_ends U st chars start (end_pos - 1) False no_oov words =
            (start, False, no_oov, words @ [kSpaceSymbol U])"
      by (rule Suc.hyps(1)[OF d lt below])
    with here False Suc.prems(1) show ?thesis
      by (subst scan_ends.simps) (simp add: substring_def)
  qed
qed

lemma scan_starts_stuck:
  assumes "stuck_at U st chars start"
  shows "scan_starts U st chars start False no_oov words = None"
proof (rule ccontr)
  assume "scan_starts U st chars start False no_oov words \<noteq> None"
  then obtain y where y: "scan_starts U st chars start False no_oov words = Some y" by auto
  from assms have lt: "start < length chars"
    and fb: "first_byte (substring chars start (Suc start)) = first_byte (kSpaceSymbol U)"
    and B: "\<forall>e\<in>set [Suc start..<Suc (length chars)].
              substring chars start e \<noteq> '' '' \<and> Find st (substring chars start e) = - 1"
    unfolding stuck_at_def by blast+
  have all: "\<forall>e. start < e \<and> e \<le> length chars \<longrightarrow>
           substring chars start e \<noteq> '' '' \<and> Find st (substring chars start e) = - 1"
  proof (intro allI impI)
    fix e assume "start < e \<and> e \<le> length chars"
    then have "e \<in> set [Suc start..<Suc (length chars)]" by auto
    with B show "substring chars start e \<noteq> '' '' \<and> Find st (substring chars start e) = - 1"
      by blast
  qed
  have round: "scan_ends U st chars start (length chars) False n ws =
                 (start, False, n, ws @ [kSpaceSymbol U])" for n ws
    by (rule scan_ends_stuck[OF lt all fb])
  have "\<not> (U = U \<and> st = st \<and> chars = chars \<and> start = start \<and> False = False)"
  proof (rule scan_starts.raw_induct[where
            P = "\<lambda>U' st' chars' start' b n ws y'.
                   \<not> (U' = U \<and> st' = st \<and> chars' = chars \<and> start' = start \<and> b = False)",
            OF _ y])
    fix rec U' st' chars' start' b n ws y'
    assume IH: "\<And>U' st' chars' start' b n ws y'.
                  rec U' st' chars' start' b n ws = Some y' \<Longrightarrow>
                  \<not> (U' = U \<and> st' = st \<and> chars' = chars \<and> start' = start \<and> b = False)"
      and body: "(if start' < length chars'
                  then case scan_ends U' st' chars' start' (length chars') b n ws of
                         (start'', beginning', no_oov', words') \<Rightarrow>
                           rec U' st' chars' start'' beginning' no_oov' words'
                  else Some (n, ws)) = Some y'"
    show "\<not> (U' = U \<and> st' = st \<and> chars' = chars \<and> start' = start \<and> b = False)"
    proof
      assume eq: "U' = U \<and> st' = st \<and> chars' = chars \<and> start' = start \<and> b = False"
      from body eq lt round[of n ws]
      have "rec U st chars start False n (ws @ [kSpaceSymbol U]) = Some y'" by simp
      from IH[OF this] show False by simp
    qed
  qed
  then show False by simp
qed

section \<open>Lemmas about the builder\<close>

text \<open>The loop over the words of a phrase computes the closed form.\<close>

lemma prefix_score_Suc:
  "prefix_score cfg U tf words (Suc k) =
     prefix_score cfg U tf words k + token_score cfg U tf k (words ! k)"
  by (simp add: prefix_score_def)

lemma add_words_done:
  "length words \<le> i \<Longrightarrow> add_words cfg U tf st s0 words i prev esc g = g"
  by (subst add_words.simps) simp

lemma AddArc_at:
  "states g = pre @ x # post \<Longrightarrow>
   AddArc g (int (length pre)) a = g\<lparr>states := pre @ x\<lparr>arcs := arcs x @ [a]\<rparr> # post\<rparr>"
  by (simp add: AddArc_def valid_state_def)

lemma add_words_step_inner:
  assumes "0 < i" "i < length words - 1" "states g = pre @ [x]"
  shows "add_words cfg U tf st 0 words i (int (length pre)) esc g =
         add_words cfg U tf st 0 words (Suc i) (int (length pre + 1))
           (esc + token_score cfg U tf i (words ! i))
           (g\<lparr>states := (pre @ [x\<lparr>arcs := arcs x @
               [\<lparr>ilabel = Find st (words ! i), olabel = Find st (words ! i),
                 weight = token_score cfg U tf i (words ! i), nextstate = int (length pre + 1)\<rparr>,
                \<lparr>ilabel = 0, olabel = 0, weight = - esc, nextstate = 0\<rparr>]\<rparr>])
               @ [\<lparr>final = None, arcs = []\<rparr>]\<rparr>)"
proof -
  let ?g1 = "g\<lparr>states := pre @ x # [\<lparr>final = None, arcs = []\<rparr>]\<rparr>"
  have s1: "states ?g1 = pre @ x # [\<lparr>final = None, arcs = []\<rparr>]" by simp
  have add: "AddState g = (int (length pre + 1), ?g1)"
    using assms(3) by (simp add: AddState_def)
  show ?thesis
    apply (subst add_words.simps)
    using assms(1,2)
    apply (simp add: add Let_def del: One_nat_def)
    apply (simp add: AddArc_at[OF s1] AddArc_at[where post="[\<lparr>final = None, arcs = []\<rparr>]"])
    done
qed

lemma add_words_step_last:
  assumes "0 < i" "i = length words - 1" "states g = pre @ [x]"
  shows "add_words cfg U tf st 0 words i (int (length pre)) esc g =
           g\<lparr>states := pre @ [x\<lparr>arcs := arcs x @
               [\<lparr>ilabel = Find st (words ! i), olabel = Find st (words ! i),
                 weight = token_score cfg U tf i (words ! i), nextstate = 0\<rparr>,
                \<lparr>ilabel = 0, olabel = 0, weight = - esc, nextstate = 0\<rparr>]\<rparr>]\<rparr>"
proof -
  have i: "i < length words" "\<not> i < length words - 1" using assms(1,2) by auto
  show ?thesis
    apply (subst add_words.simps)
    using i assms(1)
    apply (simp add: Let_def AddArc_at[OF assms(3)] AddArc_at[where post="[]"] add_words_done)
    done
qed

lemma add_words_tail:
  assumes "1 \<le> i" "i < length words" "states g = pre @ [x]" "length pre + 1 = base + i"
  shows "add_words cfg U tf st 0 words i (int (length pre)) (prefix_score cfg U tf words i) g =
           g\<lparr>states := pre
                @ [x\<lparr>arcs := arcs x @
                     [phrase_arc cfg U tf st base words i, escape_arc cfg U tf words i]\<rparr>]
                @ map (chain_state cfg U tf st base words) [Suc i..<length words]\<rparr>"
  using assms
proof (induction "length words - i" arbitrary: i g pre x)
  case 0
  then show ?case by simp
next
  case (Suc d)
  show ?case
  proof (cases "i < length words - 1")
    case True
    let ?x' = "x\<lparr>arcs := arcs x @
                     [phrase_arc cfg U tf st base words i, escape_arc cfg U tf words i]\<rparr>"
    let ?g3 = "g\<lparr>states := (pre @ [?x']) @ [\<lparr>final = None, arcs = []\<rparr>]\<rparr>"
    have sa: "state_after base words (i + 1) = int (length pre + 1)"
      using True Suc.prems by (simp add: state_after_def)
    have step: "add_words cfg U tf st 0 words i (int (length pre)) (prefix_score cfg U tf words i) g =
                add_words cfg U tf st 0 words (Suc i) (int (length (pre @ [?x'])))
                   (prefix_score cfg U tf words (Suc i)) ?g3"
    proof -
      have e: "int base + int i = 1 + int (length pre)" using Suc.prems(4) by linarith
      show ?thesis
        using add_words_step_inner[of i words g pre x cfg U tf st "prefix_score cfg U tf words i"]
          True Suc.prems sa e
        by (simp add: prefix_score_Suc phrase_arc_def escape_arc_def)
    qed
    have IH: "add_words cfg U tf st 0 words (Suc i) (int (length (pre @ [?x'])))
                   (prefix_score cfg U tf words (Suc i)) ?g3 =
              ?g3\<lparr>states := (pre @ [?x'])
                @ [\<lparr>final = None, arcs = []\<rparr>\<lparr>arcs := arcs \<lparr>final = None, arcs = []\<rparr> @
                     [phrase_arc cfg U tf st base words (Suc i), escape_arc cfg U tf words (Suc i)]\<rparr>]
                @ map (chain_state cfg U tf st base words) [Suc (Suc i)..<length words]\<rparr>"
      apply (rule Suc.hyps(1))
      using Suc.hyps(2) Suc.prems True by simp_all
    have upt: "[Suc i..<length words] = Suc i # [Suc (Suc i)..<length words]"
      using True by (simp add: upt_conv_Cons)
    show ?thesis
      unfolding step IH upt
      by (simp add: chain_state_def)
  next
    case False
    with Suc.prems have last: "i = length words - 1" by simp
    have "length words \<le> i + 1" using last by simp
    then have sa: "state_after base words (i + 1) = 0"
      by (simp add: state_after_def)
    have "0 < i" using Suc.prems by simp
    from add_words_step_last[OF this last Suc.prems(3), of cfg U tf st "prefix_score cfg U tf words i"]
    show ?thesis using last sa Suc.prems
      by (simp add: phrase_arc_def escape_arc_def)
  qed
qed

lemma add_words_first_single:
  assumes "length words = 1" "states g = x # rest"
  shows "add_words cfg U tf st 0 words 0 0 0 g =
           g\<lparr>states := x\<lparr>arcs := arcs x @ [phrase_arc cfg U tf st (length (states g)) words 0]\<rparr> # rest\<rparr>"
proof -
  have s: "states g = [] @ x # rest" using assms(2) by simp
  show ?thesis
    apply (subst add_words.simps)
    using assms(1) AddArc_at[OF s]
    apply (simp add: Let_def add_words_done phrase_arc_def state_after_def)
    done
qed

lemma add_words_first_many:
  assumes "1 < length words" "states g = x # rest"
  shows "add_words cfg U tf st 0 words 0 0 (0::'w::{zero,plus,times,uminus}) g =
           g\<lparr>states := (x\<lparr>arcs := arcs x @ [phrase_arc cfg U tf st (length (states g)) words 0]\<rparr> # rest)
                @ map (chain_state cfg U tf st (length (states g)) words) [1..<length words]\<rparr>"
proof -
  let ?base = "length (states g)"
  let ?x' = "x\<lparr>arcs := arcs x @ [phrase_arc cfg U tf st ?base words 0]\<rparr>"
  let ?e = "\<lparr>final = None, arcs = []\<rparr> :: 'w VectorState"
  let ?g2 = "g\<lparr>states := (?x' # rest) @ [?e]\<rparr>"
  have s1: "states (g\<lparr>states := x # rest @ [?e]\<rparr>) = [] @ x # (rest @ [?e])" by simp
  have sa: "state_after ?base words (Suc 0) = int ?base"
    using assms by (simp add: state_after_def)
  have p1: "prefix_score cfg U tf words (Suc 0) = 0 + token_score cfg U tf 0 (words ! 0)"
    by (simp add: prefix_score_def)
  have step: "add_words cfg U tf st 0 words 0 0 0 g =
              add_words cfg U tf st 0 words (Suc 0) (int (length (?x' # rest)))
                (prefix_score cfg U tf words (Suc 0)) ?g2"
  proof -
    have ne: "words \<noteq> []" "0 < length words" "0 < length words - 1"
      using assms(1) by auto
    show ?thesis
      apply (subst add_words.simps)
      using assms ne AddArc_at[OF s1] sa
      apply (simp add: Let_def AddState_def phrase_arc_def p1)
      done
  qed
  have tail: "add_words cfg U tf st 0 words (Suc 0) (int (length (?x' # rest)))
                (prefix_score cfg U tf words (Suc 0)) ?g2 =
              ?g2\<lparr>states := (?x' # rest)
                @ [?e\<lparr>arcs := arcs ?e @
                     [phrase_arc cfg U tf st ?base words (Suc 0), escape_arc cfg U tf words (Suc 0)]\<rparr>]
                @ map (chain_state cfg U tf st ?base words) [Suc (Suc 0)..<length words]\<rparr>"
    apply (rule add_words_tail)
    using assms by simp_all
  have upt: "[1..<length words] = Suc 0 # [Suc (Suc 0)..<length words]"
    using assms(1) by (simp add: upt_conv_Cons)
  show ?thesis
    unfolding step tail upt
    by (simp add: chain_state_def)
qed

lemma add_words_closed_form:
  assumes "states g \<noteq> []"
  shows "add_words cfg U tf st 0 words 0 0 0 g = with_phrase cfg U tf st g words"
proof -
  from assms obtain x rest where s: "states g = x # rest" by (cases "states g") auto
  consider "words = []" | "length words = 1" | "1 < length words"
    by (cases words) (auto simp: less_Suc_eq_0_disj)
  then show ?thesis
  proof cases
    case 1
    then show ?thesis by (simp add: with_phrase_def add_words_done)
  next
    case 2
    then have "words \<noteq> []" by auto
    with 2 add_words_first_single[OF 2 s, of cfg U tf st] s show ?thesis
      by (simp add: with_phrase_def)
  next
    case 3
    then have "words \<noteq> []" by auto
    with 3 add_words_first_many[OF 3 s, of cfg U tf st] s show ?thesis
      by (simp add: with_phrase_def)
  qed
qed

text \<open>The loop over the phrases computes the closed form.\<close>

lemma with_phrase_states_nonempty:
  "states g \<noteq> [] \<Longrightarrow> states (with_phrase cfg U tf st g ws) \<noteq> []"
  by (simp add: with_phrase_def)

lemma accepted_words_Cons:
  "accepted_words U st (c # cs) =
     (case tokens U st c of Some (True, ws) \<Rightarrow> [ws] | _ \<Rightarrow> []) @ accepted_words U st cs"
  by (simp add: accepted_words_def)

lemma add_contexts_closed_form:
  "states ofst \<noteq> [] \<Longrightarrow>
   add_contexts cfg U tf st 0 query_contexts count ofst =
     (if \<forall>c\<in>set (budgeted cfg count query_contexts). tokens U st c \<noteq> None
      then Some (foldl (with_phrase cfg U tf st) ofst
                   (accepted_words U st (budgeted cfg count query_contexts)))
      else None)"
proof (induction query_contexts arbitrary: count ofst)
  case Nil
  then show ?case by (simp add: budgeted_def accepted_words_def)
next
  case (Cons c cs)
  show ?case
  proof (cases "too_long cfg c")
    case True
    then have "budgeted cfg count (c # cs) = budgeted cfg count cs"
      by (simp add: budgeted_def)
    with True Cons show ?thesis by (simp add: too_long_def)
  next
    case fits: False
    show ?thesis
    proof (cases "count + 1 > max_contexts cfg")
      case True
      then have "budgeted cfg count (c # cs) = []" by (simp add: budgeted_def)
      with True fits show ?thesis by (simp add: too_long_def accepted_words_def)
    next
      case False
      then have "nat (max_contexts cfg - count) = Suc (nat (max_contexts cfg - (count + 1)))"
        by simp
      with fits have b: "budgeted cfg count (c # cs) = c # budgeted cfg (count + 1) cs"
        by (simp add: budgeted_def)
      show ?thesis
      proof (cases "tokens U st c")
        case None
        with False fits b show ?thesis by (simp add: too_long_def tokens_def)
      next
        case (Some res)
        obtain no_oov ws where res: "res = (no_oov, ws)" by (cases res)
        show ?thesis
        proof (cases no_oov)
          case True
          from Cons.prems have ne: "states (with_phrase cfg U tf st ofst ws) \<noteq> []"
            by (rule with_phrase_states_nonempty)
          from True Some res False fits b Cons.IH[OF ne, of "count + 1"] Cons.prems
          show ?thesis
            by (auto simp: too_long_def tokens_def[symmetric] accepted_words_Cons
                  add_words_closed_form)
        next
          case no: False
          from no Some res False fits b Cons.IH[OF Cons.prems, of "count + 1"]
          show ?thesis
            by (auto simp: too_long_def tokens_def[symmetric] accepted_words_Cons)
        qed
      qed
    qed
  qed
qed

lemma BuildOfst_closed_form:
  "BuildOfst cfg U tf st query_contexts =
     (if \<forall>c\<in>set (budgeted cfg 0 query_contexts). tokens U st c \<noteq> None
      then Some (graph_of cfg U tf st (accepted_words U st (budgeted cfg 0 query_contexts)))
      else None)"
proof -
  have init: "SetFinal (SetStart (snd (AddState new_StdVectorFst)) 0) 0 One = (start_graph :: 'a StdVectorFst)"
    by (simp add: AddState_def new_StdVectorFst_def SetStart_def SetFinal_def valid_state_def
          start_graph_def)
  have "BuildOfst cfg U tf st query_contexts =
          add_contexts cfg U tf st 0 query_contexts 0 start_graph"
    using init by (simp add: BuildOfst_def AddState_def new_StdVectorFst_def)
  then show ?thesis
    by (simp add: add_contexts_closed_form start_graph_def graph_of_def)
qed

text \<open>Every phrase of the list keeps its chain of states in the automaton.\<close>

lemma length_with_phrase:
  "states g \<noteq> [] \<Longrightarrow>
   length (states (with_phrase cfg U tf st g ws)) = length (states g) + (length ws - 1)"
  by (simp add: with_phrase_def)

lemma has_phrase_new:
  assumes "states g \<noteq> []"
  shows "has_phrase cfg U tf st (with_phrase cfg U tf st g ws) (length (states g)) ws"
proof (cases "ws = []")
  case True
  with assms show ?thesis
    by (simp add: has_phrase_def with_phrase_def Suc_leI)
next
  case False
  from assms obtain x rest where s: "states g = x # rest" by (cases "states g") auto
  have "states (with_phrase cfg U tf st g ws) ! (length (states g) + k - 1)
          = chain_state cfg U tf st (length (states g)) ws k"
    if "1 \<le> k" "k < length ws" for k
  proof -
    have "length (states g) + k - 1 = length (states g) + (k - 1)" using that by simp
    moreover have "map (chain_state cfg U tf st (length (states g)) ws) [1..<length ws] ! (k - 1)
                     = chain_state cfg U tf st (length (states g)) ws k"
      using that by simp
    ultimately show ?thesis
      using False by (simp add: with_phrase_def nth_append)
  qed
  moreover have "length (states g) + k - 1 < length (states (with_phrase cfg U tf st g ws))"
    if "1 \<le> k" "k < length ws" for k
    using that assms by (simp add: length_with_phrase)
  ultimately show ?thesis
    using False s by (simp add: has_phrase_def with_phrase_def)
qed

lemma has_phrase_kept:
  assumes "has_phrase cfg U tf st g base ws"
  shows "has_phrase cfg U tf st (with_phrase cfg U tf st g ws') base ws"
proof (cases "ws' = []")
  case True
  with assms show ?thesis by (simp add: with_phrase_def)
next
  case False
  from assms obtain x rest where s: "states g = x # rest"
    by (cases "states g") (auto simp: has_phrase_def)
  have first: "ws \<noteq> [] \<Longrightarrow> phrase_arc cfg U tf st base ws 0
                 \<in> set (arcs (states (with_phrase cfg U tf st g ws') ! 0))"
    using assms False s by (simp add: has_phrase_def with_phrase_def)
  have inner: "base + k - 1 < length (states (with_phrase cfg U tf st g ws')) \<and>
               states (with_phrase cfg U tf st g ws') ! (base + k - 1)
                 = chain_state cfg U tf st base ws k"
    if "1 \<le> k" "k < length ws" for k
  proof -
    from assms that have lt: "base + k - 1 < length (states g)"
      and eq: "states g ! (base + k - 1) = chain_state cfg U tf st base ws k"
      and b: "1 \<le> base"
      by (auto simp: has_phrase_def)
    from b that have "base + k - 1 \<noteq> 0" by simp
    with lt eq False show ?thesis
      by (simp add: with_phrase_def nth_append)
  qed
  from first inner assms show ?thesis
    by (simp add: has_phrase_def with_phrase_def False)
qed

lemma graph_of_snoc:
  "graph_of cfg U tf st (wss @ [ws]) = with_phrase cfg U tf st (graph_of cfg U tf st wss) ws"
  by (simp add: graph_of_def)

lemma graph_of_states_nonempty: "states (graph_of cfg U tf st wss) \<noteq> []"
  by (induction wss rule: rev_induct)
     (simp_all add: graph_of_snoc with_phrase_states_nonempty, simp add: graph_of_def start_graph_def)

lemma length_graph_of:
  "length (states (graph_of cfg U tf st wss)) = offset wss (length wss)"
proof (induction wss rule: rev_induct)
  case Nil
  then show ?case by (simp add: graph_of_def start_graph_def offset_def)
next
  case (snoc ws wss)
  then show ?case
    by (simp add: graph_of_snoc length_with_phrase graph_of_states_nonempty offset_def)
qed

lemma graph_of_has_phrase:
  "m < length wss \<Longrightarrow>
   has_phrase cfg U tf st (graph_of cfg U tf st wss) (offset wss m) (wss ! m)"
proof (induction wss rule: rev_induct)
  case Nil
  then show ?case by simp
next
  case (snoc ws wss)
  show ?case
  proof (cases "m < length wss")
    case True
    then have "offset (wss @ [ws]) m = offset wss m" by (simp add: offset_def)
    with True snoc.IH show ?thesis
      by (simp add: graph_of_snoc nth_append has_phrase_kept)
  next
    case False
    with snoc.prems have m: "m = length wss" by simp
    then have "offset (wss @ [ws]) m = length (states (graph_of cfg U tf st wss))"
      by (simp add: length_graph_of offset_def)
    with m show ?thesis
      by (simp add: graph_of_snoc has_phrase_new graph_of_states_nonempty)
  qed
qed



lemma has_phrase_walk_between:
  assumes "has_phrase cfg U tf st g base ws" "1 \<le> i" "i \<le> j" "j \<le> length ws"
  shows "walk g (state_after base ws i) (phrase_path cfg U tf st ws i j) (state_after base ws j)"
  using assms(2,3)
proof (induction "j - i" arbitrary: i)
  case 0
  then show ?case by (simp add: phrase_path_def)
next
  case (Suc d)
  with assms(4) have k: "1 \<le> i" "i < length ws" "i < j" by auto
  with assms(1) have lt: "base + i - 1 < length (states g)"
    and eq: "states g ! (base + i - 1) = chain_state cfg U tf st base ws i"
    by (auto simp: has_phrase_def)
  have sa: "state_after base ws i = int (base + i - 1)"
    using k by (simp add: state_after_def)
  have arcs: "arcs_of g (state_after base ws i)
                = Some [phrase_arc cfg U tf st base ws i, escape_arc cfg U tf ws i]"
    using lt eq sa by (simp add: arcs_of_def valid_state_def chain_state_def)
  have IH: "walk g (state_after base ws (Suc i)) (phrase_path cfg U tf st ws (Suc i) j)
              (state_after base ws j)"
    using Suc.hyps(1)[of "Suc i"] Suc.hyps(2) k by simp
  have path: "phrase_path cfg U tf st ws i j =
                (Find st (ws ! i), token_score cfg U tf i (ws ! i))
                  # phrase_path cfg U tf st ws (Suc i) j"
    using k by (simp add: phrase_path_def upt_conv_Cons)
  show ?case
    unfolding path using arcs IH by (simp add: phrase_arc_def)
qed

lemma has_phrase_walk_prefix:
  assumes "has_phrase cfg U tf st g base ws" "j \<le> length ws"
  shows "walk g 0 (phrase_path cfg U tf st ws 0 j) (state_after base ws j)"
proof (cases "j = 0")
  case True
  then show ?thesis by (simp add: phrase_path_def state_after_def)
next
  case False
  with assms(2) have ne: "ws \<noteq> []" and j: "1 \<le> j" by auto
  have path: "phrase_path cfg U tf st ws 0 j =
                (Find st (ws ! 0), token_score cfg U tf 0 (ws ! 0))
                  # phrase_path cfg U tf st ws (Suc 0) j"
    using j by (simp add: phrase_path_def upt_conv_Cons)
  from has_phrase_walk_between[OF assms(1) _ _ assms(2), of 1] j
  have tail: "walk g (state_after base ws (Suc 0)) (phrase_path cfg U tf st ws (Suc 0) j)
                (state_after base ws j)"
    by simp
  from assms(1) ne have "phrase_arc cfg U tf st base ws 0 \<in> set (arcs (states g ! 0))"
    and "states g \<noteq> []"
    by (auto simp: has_phrase_def)
  then show ?thesis
    unfolding path using tail
    by (auto simp: arcs_of_def valid_state_def phrase_arc_def
             intro!: bexI[where x="phrase_arc cfg U tf st base ws 0"])
qed


lemma BuildOfst_SomeD:
  "BuildOfst cfg U tf st query_contexts = Some g \<Longrightarrow>
   g = graph_of cfg U tf st (accepted_words U st (budgeted cfg 0 query_contexts))"
  by (simp add: BuildOfst_closed_form split: if_splits)


lemma budgeted_idem: "budgeted cfg 0 (budgeted cfg 0 cs) = budgeted cfg 0 cs"
proof -
  have "filter P (take n (filter P xs)) = take n (filter P xs)" for P n and xs :: "string list"
    by (auto simp: filter_id_conv dest: in_set_takeD)
  then show ?thesis by (simp add: budgeted_def)
qed

lemma budgeted_filter:
  "budgeted cfg n (filter (\<lambda>c. \<not> too_long cfg c) cs) = budgeted cfg n cs"
  by (simp add: budgeted_def)

lemma accepted_has_phrase:
  assumes "BuildOfst cfg U tf st query_contexts = Some g"
    and "ws \<in> set (accepted_words U st (budgeted cfg 0 query_contexts))"
  shows "\<exists>base. has_phrase cfg U tf st g base ws"
proof -
  let ?wss = "accepted_words U st (budgeted cfg 0 query_contexts)"
  from assms(2) obtain m where m: "m < length ?wss" "?wss ! m = ws"
    by (auto simp: in_set_conv_nth)
  from graph_of_has_phrase[OF m(1), of cfg U tf st] m(2) BuildOfst_SomeD[OF assms(1)]
  show ?thesis by auto
qed

lemma accepted_wordsI:
  "c \<in> set cs \<Longrightarrow> tokens U st c = Some (True, ws) \<Longrightarrow> ws \<in> set (accepted_words U st cs)"
  by (auto simp: accepted_words_def intro!: bexI[where x=c])

section \<open>The concrete setting, evaluated\<close>

lemmas utf8_eval = utf8_utils_def hello_table_def nihao_def example_config_def is_space_def ascii_letter_def
  Find_def first_byte_def Let_def scan_ends.simps

lemma tokens_hello_world:
  "tokens utf8_utils hello_table ''hello world'' =
     Some (True, [[CHR 0xE2, CHR 0x96, CHR 0x81] @ ''hello'', [CHR 0xE2, CHR 0x96, CHR 0x81] @ ''world''])"
  by (simp add: tokens_def SplitUTF8StringToWords_def scan_starts.simps utf8_eval)

lemma tokens_hello:
  "tokens utf8_utils hello_table ''hello'' = Some (True, [[CHR 0xE2, CHR 0x96, CHR 0x81] @ ''hello''])"
  by (simp add: tokens_def SplitUTF8StringToWords_def scan_starts.simps utf8_eval)

lemma tokens_you:
  "tokens utf8_utils hello_table ''you'' =
     Some (False, [[CHR 0xE2, CHR 0x96, CHR 0x81]])"
  by (simp add: tokens_def SplitUTF8StringToWords_def scan_starts.simps utf8_eval)

lemma tokens_nihao:
  "tokens utf8_utils hello_table (nihao @ nihao) = Some (True, [nihao, nihao])"
  by (simp add: tokens_def SplitUTF8StringToWords_def scan_starts.simps utf8_eval)

lemmas build_eval = BuildOfst_def SplitUTF8StringToWords_def scan_starts.simps add_words.simps
  AddState_def AddArc_def SetStart_def SetFinal_def new_StdVectorFst_def valid_state_def
  token_score_def One_def Let_def

lemma build_hello_world:
  "BuildOfst example_config utf8_utils int hello_table [''hello world''] = Some hello_world_graph"
  by (simp add: build_eval utf8_eval hello_world_graph_def)

lemma build_hello:
  "BuildOfst example_config utf8_utils int hello_table [''hello''] = Some hello_graph"
  by (simp add: build_eval utf8_eval hello_graph_def)


section \<open>The claims\<close>

text \<open>
  C1. Claimed: after \<open>BuildContextGraph\<close> with an empty phrase list, or with no build at
  all, every lookup returns state 0, a zero score and both flags false, and never fails.

  Refuted as stated: the empty list resets \<open>graph_\<close> to null, a fresh object has it null
  too, and \<open>GetNextState\<close> reads through \<open>graph_\<close> without a test.
\<close>

theorem lookup_after_empty_build_counterexample:
  "map_option (map_sum id m_graph) empty_build = Some (Inr None) \<and>
   m_graph (new_ContextGraph example_config) = None \<and>
   GetNextState (None :: int StdVectorFst option) 0 1 0 False False = Inl NullGraph"
  by (simp add: empty_build_def BuildContextGraph_def AddSymbol_def new_ContextGraph_def
        GetNextState_def hello_table_def nihao_def)

text \<open>
  C1, amended. In an automaton that exists and has no arcs, a lookup at any of its states
  returns state 0 and leaves the score and both flags as they were on entry, without
  failing; the automaton built from a phrase list of which no phrase is accepted is such an
  automaton, and state 0 is one of its states.
\<close>

theorem lookup_in_automaton_without_arcs:
  "(valid_state g s \<and> (\<forall>x\<in>set (states g). arcs x = []) \<longrightarrow>
      GetNextState (Some g) s t sc sb eb =
        Inr \<lparr>next_state = 0, score = sc, is_start_boundary = sb, is_end_boundary = eb\<rparr>) \<and>
   (BuildOfst cfg U to_float st query_contexts = Some g \<and>
    accepted_words U st (budgeted cfg 0 query_contexts) = [] \<longrightarrow>
      valid_state g 0 \<and> (\<forall>x\<in>set (states g). arcs x = []))"
proof -
  have A: "GetNextState (Some g) s t sc sb eb =
        Inr \<lparr>next_state = 0, score = sc, is_start_boundary = sb, is_end_boundary = eb\<rparr>"
    if v: "valid_state g s" and e: "\<forall>x\<in>set (states g). arcs x = []"
  proof -
    from v have "nat s < length (states g)" "0 < length (states g)"
      by (auto simp: valid_state_def)
    then have "states g ! nat s \<in> set (states g)" "states g ! 0 \<in> set (states g)"
      by simp_all
    with e have "arcs (states g ! nat s) = []" "arcs (states g ! 0) = []"
      by blast+
    with v \<open>0 < length (states g)\<close> show ?thesis
      by (simp add: GetNextState_def arcs_of_def valid_state_def)
  qed
  have B: "valid_state g 0 \<and> (\<forall>x\<in>set (states g). arcs x = [])"
    if "BuildOfst cfg U to_float st query_contexts = Some g"
      and "accepted_words U st (budgeted cfg 0 query_contexts) = []"
    using BuildOfst_SomeD[OF that(1)] that(2)
    by (simp add: graph_of_def start_graph_def valid_state_def)
  from A B show ?thesis by blast
qed

theorem lookup_in_automaton_without_arcs_witness:
  "BuildOfst example_config utf8_utils int hello_table [''hello world hello''] = Some no_arcs_graph \<and>
   GetNextState (Some no_arcs_graph) 0 1 0 False False =
     Inr \<lparr>next_state = 0, score = 0, is_start_boundary = False, is_end_boundary = False\<rparr>"
proof -
  have b: "BuildOfst example_config utf8_utils int hello_table [''hello world hello'']
             = Some no_arcs_graph"
    by (simp add: build_eval utf8_eval no_arcs_graph_def)
  have a: "accepted_words utf8_utils hello_table
             (budgeted example_config 0 [''hello world hello'']) = []"
    by (simp add: accepted_words_def budgeted_def too_long_def example_config_def)
  from lookup_in_automaton_without_arcs[of no_arcs_graph 0 1 0 False False
         example_config utf8_utils int hello_table "[''hello world hello'']"] b a
  show ?thesis by simp
qed

text \<open>
  C2. Claimed: when an arc of \<open>s\<close> carries the label \<open>t\<close>, the lookup takes that arc, the
  score is the weight of the arc alone, and the lookup stops there.

  The code breaks this when the arc leads to state 0: \<open>next_state\<close> is then 0, which the
  test after the first loop reads as no match, and the second loop scans state 0 again. In
  the automaton of the single phrase \<open>hello\<close> (one token, one arc from state 0 to state 0,
  weight 3) the lookup of that token at state 0 returns the score 6.
\<close>

theorem GetNextState_counts_arc_to_start_twice:
  "BuildOfst example_config utf8_utils int hello_table [''hello''] = Some hello_graph \<and>
   arcs_of hello_graph 0 = Some [\<lparr>ilabel = 1, olabel = 1, weight = 3, nextstate = 0\<rparr>] \<and>
   GetNextState (Some hello_graph) 0 1 0 False False =
     Inr \<lparr>next_state = 0, score = 6, is_start_boundary = True, is_end_boundary = True\<rparr>"
  using build_hello by (simp add: hello_graph_def graph_eval)



text \<open>
  C4. Claimed: two lookups with the same state and token return the same state, score and
  flags, whatever the out-parameters hold on entry.

  Refuted as stated: where nothing matches and the state has no escape arc, the score and
  the flags come back as they went in.
\<close>

theorem GetNextState_entry_values_counterexample:
  "GetNextState (Some hello_world_graph) 0 7 1 False False =
     Inr \<lparr>next_state = 0, score = 1, is_start_boundary = False, is_end_boundary = False\<rparr> \<and>
   GetNextState (Some hello_world_graph) 0 7 2 True True =
     Inr \<lparr>next_state = 0, score = 2, is_start_boundary = True, is_end_boundary = True\<rparr>"
  by (simp add: hello_world_graph_def graph_eval)

text \<open>
  C4, amended. For a fixed automaton, two lookups with the same state and token fail
  alike or return alike: the same state whatever the out-parameters hold on entry, and in
  each of score, \<open>is_start_boundary\<close> and \<open>is_end_boundary\<close> the same value whenever
  that same out-parameter held the same value on entry in both.
\<close>

theorem GetNextState_two_calls:
  "(case (GetNextState G s t sc1 sb1 eb1, GetNextState G s t sc2 sb2 eb2) of
      (Inl e1, Inl e2) \<Rightarrow> e1 = e2
    | (Inr r1, Inr r2) \<Rightarrow>
        next_state r1 = next_state r2 \<and>
        (sc1 = sc2 \<longrightarrow> score r1 = score r2) \<and>
        (sb1 = sb2 \<longrightarrow> is_start_boundary r1 = is_start_boundary r2) \<and>
        (eb1 = eb2 \<longrightarrow> is_end_boundary r1 = is_end_boundary r2)
    | _ \<Rightarrow> False)"
proof (cases G)
  case None
  then show ?thesis by (simp add: GetNextState_def)
next
  case (Some g)
  show ?thesis
  proof (cases "arcs_of g s")
    case None
    with Some show ?thesis by (simp add: GetNextState_def)
  next
    case (Some as)
    let ?r1 = "\<lparr>next_state = 0, score = sc1, is_start_boundary = sb1, is_end_boundary = eb1\<rparr>"
    let ?r2 = "\<lparr>next_state = 0, score = sc2, is_start_boundary = sb2, is_end_boundary = eb2\<rparr>"
    have first: "case (scan_cur g s t as ?r1, scan_cur g s t as ?r2) of
                   (Inl e1, Inl e2) \<Rightarrow> e1 = e2
                 | (Inr r1', Inr r2') \<Rightarrow> agree ?r1 ?r2 r1' r2'
                 | _ \<Rightarrow> False"
      by (rule scan_cur_two_runs) simp
    show ?thesis
    proof (cases "scan_cur g s t as ?r1")
      case (Inl e1)
      with first \<open>G = Some g\<close> Some show ?thesis
        by (auto simp: GetNextState_def split: sum.splits)
    next
      case (Inr m1)
      with first obtain m2 where m2: "scan_cur g s t as ?r2 = Inr m2" and ag: "agree ?r1 ?r2 m1 m2"
        by (auto split: sum.splits)
      show ?thesis
      proof (cases "next_state m1 = 0")
        case False
        with ag Inr m2 \<open>G = Some g\<close> Some show ?thesis
          by (auto simp: GetNextState_def agree_def)
      next
        case True
        with ag have ns: "next_state m1 = next_state m2" "next_state m2 = 0"
          by (simp_all add: agree_def)
        show ?thesis
        proof (cases "arcs_of g 0")
          case None
          with True ns Inr m2 \<open>G = Some g\<close> Some show ?thesis
            by (simp add: GetNextState_def)
        next
          case (Some as0)
          have second: "case (scan_zero g s t as0 m1, scan_zero g s t as0 m2) of
                   (Inl e1, Inl e2) \<Rightarrow> e1 = e2
                 | (Inr r1', Inr r2') \<Rightarrow> agree m1 m2 r1' r2'
                 | _ \<Rightarrow> False"
            by (rule scan_zero_two_runs) (rule ns(1))
          have eq1: "GetNextState G s t sc1 sb1 eb1 = scan_zero g s t as0 m1"
            using True Inr \<open>G = Some g\<close> \<open>arcs_of g s = Some as\<close> Some
            by (simp add: GetNextState_def)
          have eq2: "GetNextState G s t sc2 sb2 eb2 = scan_zero g s t as0 m2"
            using ns m2 \<open>G = Some g\<close> \<open>arcs_of g s = Some as\<close> Some
            by (simp add: GetNextState_def)
          from second ag show ?thesis unfolding eq1 eq2
            by (auto simp: agree_def split: sum.splits)
        qed
      qed
    qed
  qed
qed

theorem GetNextState_two_calls_witness:
  "GetNextState (Some hello_world_graph) 1 7 1 False True =
     Inr \<lparr>next_state = 0, score = - 3, is_start_boundary = False, is_end_boundary = True\<rparr> \<and>
   GetNextState (Some hello_world_graph) 1 7 2 False False =
     Inr \<lparr>next_state = 0, score = - 3, is_start_boundary = False, is_end_boundary = False\<rparr> \<and>
   next_state \<lparr>next_state = 0, score = - 3 :: int, is_start_boundary = False, is_end_boundary = True\<rparr> =
   next_state \<lparr>next_state = 0, score = - 3 :: int, is_start_boundary = False, is_end_boundary = False\<rparr> \<and>
   is_start_boundary \<lparr>next_state = 0, score = - 3 :: int, is_start_boundary = False, is_end_boundary = True\<rparr> =
   is_start_boundary \<lparr>next_state = 0, score = - 3 :: int, is_start_boundary = False, is_end_boundary = False\<rparr>"
  using GetNextState_two_calls[where G = "Some hello_world_graph" and s = 1 and t = 7
      and ?sc1.0 = 1 and ?sb1.0 = False and ?eb1.0 = True
      and ?sc2.0 = 2 and ?sb2.0 = False and ?eb2.0 = False]
  by (simp add: hello_world_graph_def graph_eval)

text \<open>
  C5. Claimed: when no arc of \<open>cur_state\<close> matches and an arc of state 0 does, the lookup
  returns the destination of that arc, adds its weight to the escape baseline, and sets
  \<open>is_start_boundary\<close>, since the new match starts from state 0.

  The code breaks this: the second loop sets \<open>is_start_boundary\<close> under the test
  \<open>cur_state == 0\<close> of the first loop, and \<open>cur_state\<close> is not 0 when the first scan
  fails and the second one matches. In the automaton of the phrase \<open>hello world\<close>, the
  lookup of the first token at state 1, after a first \<open>hello\<close>, restarts the phrase and
  leaves the flag false.
\<close>

theorem GetNextState_fallback_leaves_start_flag:
  "BuildOfst example_config utf8_utils int hello_table [''hello world''] = Some hello_world_graph \<and>
   GetNextState (Some hello_world_graph) 1 1 0 False False =
     Inr \<lparr>next_state = 1, score = 0, is_start_boundary = False, is_end_boundary = False\<rparr>"
  using build_hello_world by (simp add: hello_world_graph_def graph_eval)

text \<open>
  C6. Claimed: the tokenizer returns on every string and vocabulary; at an
  out-of-vocabulary unit it skips the codepoint and goes on.

  The code breaks this: at a single codepoint that is not in the vocabulary and begins
  with the first byte of \<open>kSpaceSymbol\<close>, the inner loop appends \<open>kSpaceSymbol\<close> and
  breaks with \<open>start\<close> unchanged, and the outer loop runs the same round again, for ever.
  U+2019 (bytes E2 80 99) is such a codepoint.
\<close>

theorem SplitUTF8StringToWords_does_not_return:
  "SplitUTF8StringToWords utf8_utils (''hello'' @ [CHR 0xE2, CHR 0x80, CHR 0x99] @ ''s'')
     hello_table [] = None"
proof -
  let ?chars = "[''h'', ''e'', ''l'', ''l'', ''o'', [CHR 0xE2, CHR 0x80, CHR 0x99], ''s'']"
  have chars: "SplitUTF8StringToChars utf8_utils
                 (Trim utf8_utils (''hello'' @ [CHR 0xE2, CHR 0x80, CHR 0x99] @ ''s'')) = ?chars"
    by (simp add: utf8_utils_def is_space_def)
  have first: "scan_ends utf8_utils hello_table ?chars 0 (length ?chars) True True [] =
                 (5, False, True, [[CHR 0xE2, CHR 0x96, CHR 0x81] @ ''hello''])"
    by (simp add: utf8_eval)
  have stuck: "stuck_at utf8_utils hello_table ?chars 5"
    by (simp add: stuck_at_def substring_def upt_conv_Cons utf8_eval)
  show ?thesis
    unfolding SplitUTF8StringToWords_def chars
    apply (subst scan_starts.simps)
    using first scan_starts_stuck[OF stuck] by simp
qed

text \<open>
  C7. Claimed: a skipped phrase, too long or not resolved, does not use up the budget
  \<open>max_contexts\<close>, so that the first \<open>max_contexts\<close> accepted phrases are in the
  automaton.

  Refuted as stated: the count is taken before the tokenizer runs. With a budget of 1, the
  unresolved \<open>you\<close> uses up the budget, and \<open>hello\<close>, which is accepted when it stands
  alone, leaves no arc.
\<close>

theorem unresolved_phrase_uses_budget_counterexample:
  "max_contexts example_config = 1 \<and>
   SplitUTF8StringToWords utf8_utils (Trim utf8_utils ''you'') hello_table [] =
     Some (False, [[CHR 0xE2, CHR 0x96, CHR 0x81]]) \<and>
   BuildOfst example_config utf8_utils int hello_table [''hello''] = Some hello_graph \<and>
   BuildOfst example_config utf8_utils int hello_table [''you'', ''hello''] = Some no_arcs_graph"
proof -
  have "BuildOfst example_config utf8_utils int hello_table [''you'', ''hello''] = Some no_arcs_graph"
    by (simp add: build_eval utf8_eval no_arcs_graph_def)
  with tokens_you build_hello show ?thesis
    by (simp add: tokens_def example_config_def)
qed

text \<open>
  C7, amended. A phrase skipped for its length does not use up the budget; a phrase
  skipped for an unresolved token does. The automaton is built from the first
  \<open>max_contexts\<close> phrases that are not too long, and of these it holds exactly the ones
  that the tokenizer resolves; a phrase after them changes nothing. (The build returns
  when the tokenizer returns on each of these phrases.)
\<close>

theorem budget_counts_attempted_phrases:
  "BuildOfst cfg U to_float st query_contexts =
     BuildOfst cfg U to_float st
       (take (nat (max_contexts cfg)) (filter (\<lambda>c. \<not> too_long cfg c) query_contexts)) \<and>
   BuildOfst cfg U to_float st query_contexts =
     (if \<forall>c\<in>set (take (nat (max_contexts cfg)) (filter (\<lambda>c. \<not> too_long cfg c) query_contexts)).
           tokens U st c \<noteq> None
      then Some (graph_of cfg U to_float st
                   (accepted_words U st
                      (take (nat (max_contexts cfg))
                         (filter (\<lambda>c. \<not> too_long cfg c) query_contexts))))
      else None)"
proof -
  have b: "take (nat (max_contexts cfg)) (filter (\<lambda>c. \<not> too_long cfg c) query_contexts)
             = budgeted cfg 0 query_contexts"
    by (simp add: budgeted_def)
  show ?thesis
    unfolding b by (simp add: BuildOfst_closed_form budgeted_idem)
qed

theorem budget_counts_attempted_phrases_witness:
  "BuildOfst example_config utf8_utils int hello_table [''hello world hello'', ''you'', ''hello''] =
     BuildOfst example_config utf8_utils int hello_table [''you''] \<and>
   BuildOfst example_config utf8_utils int hello_table [''hello world hello'', ''you'', ''hello''] =
     Some (graph_of example_config utf8_utils int hello_table [])"
proof -
  have t: "take (nat (max_contexts example_config))
             (filter (\<lambda>c. \<not> too_long example_config c) [''hello world hello'', ''you'', ''hello''])
           = [''you'']"
    by (simp add: too_long_def example_config_def)
  have a: "accepted_words utf8_utils hello_table [''you''] = []"
    by (simp add: accepted_words_def tokens_you)
  have i: "\<forall>c\<in>set [''you'']. tokens utf8_utils hello_table c \<noteq> None"
    by (simp add: tokens_you)
  from budget_counts_attempted_phrases[of example_config utf8_utils int hello_table
         "[''hello world hello'', ''you'', ''hello'']"] i
  show ?thesis
    unfolding t a by auto
qed

text \<open>
  C8. Claimed: a phrase is skipped exactly when its length in codepoints exceeds
  \<open>max_context_length\<close>.

  Refuted as stated: the test is on \<open>context.size()\<close>, the number of bytes. With the limit
  11, a phrase of 4 codepoints in 12 bytes, which the tokenizer resolves, is skipped.
\<close>

theorem length_limit_counterexample:
  "max_context_length example_config = 11 \<and>
   UTF8StringLength utf8_utils (nihao @ nihao) = 4 \<and>
   length (nihao @ nihao) = 12 \<and>
   SplitUTF8StringToWords utf8_utils (Trim utf8_utils (nihao @ nihao)) hello_table [] =
     Some (True, [nihao, nihao]) \<and>
   BuildOfst example_config utf8_utils int hello_table [nihao @ nihao] = Some no_arcs_graph"
proof -
  have "BuildOfst example_config utf8_utils int hello_table [nihao @ nihao] = Some no_arcs_graph"
    by (simp add: build_eval utf8_eval no_arcs_graph_def)
  with tokens_nihao show ?thesis
    by (simp add: tokens_def example_config_def utf8_utils_def nihao_def)
qed

text \<open>
  C8, amended. A phrase is skipped for its length exactly when its number of bytes, as
  given, exceeds \<open>max_context_length\<close> (converted to \<open>size_t\<close>): the automaton is the
  one built from the list without these phrases, and every phrase of at most that many
  bytes that is within the budget and that the tokenizer resolves has its tokens, with
  their scores, on a walk from state 0 back to state 0.
\<close>

theorem length_limit_counts_bytes:
  "BuildOfst cfg U to_float st query_contexts =
     BuildOfst cfg U to_float st
       (filter (\<lambda>c. \<not> int (length c) > max_context_length cfg mod 2 ^ 64) query_contexts) \<and>
   (\<forall>g c ws.
      BuildOfst cfg U to_float st query_contexts = Some g \<and>
      c \<in> set (take (nat (max_contexts cfg))
                  (filter (\<lambda>c. \<not> int (length c) > max_context_length cfg mod 2 ^ 64)
                     query_contexts)) \<and>
      SplitUTF8StringToWords U (Trim U c) st [] = Some (True, ws) \<longrightarrow>
      walk g 0 (phrase_path cfg U to_float st ws 0 (length ws)) 0)"
proof -
  have f: "filter (\<lambda>c. \<not> int (length c) > max_context_length cfg mod 2 ^ 64) query_contexts
             = filter (\<lambda>c. \<not> too_long cfg c) query_contexts"
    by (simp add: too_long_def)
  have "walk g 0 (phrase_path cfg U to_float st ws 0 (length ws)) 0"
    if "BuildOfst cfg U to_float st query_contexts = Some g"
      and "c \<in> set (budgeted cfg 0 query_contexts)"
      and "tokens U st c = Some (True, ws)" for g c ws
  proof -
    from that(2,3) have "ws \<in> set (accepted_words U st (budgeted cfg 0 query_contexts))"
      by (rule accepted_wordsI)
    from accepted_has_phrase[OF that(1) this] obtain base
      where "has_phrase cfg U to_float st g base ws" ..
    from has_phrase_walk_prefix[OF this, of "length ws"] show ?thesis
      by (simp add: state_after_def)
  qed
  note included = this
  have skipped: "BuildOfst cfg U to_float st query_contexts =
     BuildOfst cfg U to_float st (filter (\<lambda>c. \<not> too_long cfg c) query_contexts)"
    by (simp add: BuildOfst_closed_form budgeted_filter)
  have b: "take (nat (max_contexts cfg)) (filter (\<lambda>c. \<not> too_long cfg c) query_contexts)
             = budgeted cfg 0 query_contexts"
    by (simp add: budgeted_def)
  show ?thesis
    unfolding f b tokens_def[symmetric] using skipped included by blast
qed

theorem length_limit_counts_bytes_witness:
  "BuildOfst example_config utf8_utils int hello_table [nihao @ nihao, ''hello world''] =
     BuildOfst example_config utf8_utils int hello_table [''hello world''] \<and>
   BuildOfst example_config utf8_utils int hello_table [nihao @ nihao, ''hello world''] =
     Some hello_world_graph \<and>
   walk hello_world_graph 0 [(1, 3), (2, 4)] 0"
proof -
  let ?cs = "[nihao @ nihao, ''hello world'']"
  let ?ws = "[[CHR 0xE2, CHR 0x96, CHR 0x81] @ ''hello'', [CHR 0xE2, CHR 0x96, CHR 0x81] @ ''world'']"
  have f: "filter (\<lambda>c. \<not> int (length c) > max_context_length example_config mod 2 ^ 64) ?cs
             = [''hello world'']"
    by (simp add: example_config_def nihao_def)
  have b: "BuildOfst example_config utf8_utils int hello_table ?cs = Some hello_world_graph"
    by (simp add: build_eval utf8_eval hello_world_graph_def)
  have c: "''hello world'' \<in> set (take (nat (max_contexts example_config)) [''hello world''])"
    by (simp add: example_config_def)
  have t: "SplitUTF8StringToWords utf8_utils (Trim utf8_utils ''hello world'') hello_table []
             = Some (True, ?ws)"
    using tokens_hello_world by (simp add: tokens_def)
  have pp: "phrase_path example_config utf8_utils int hello_table ?ws 0 (length ?ws)
              = [(1, 3), (2, 4)]"
    by (simp add: phrase_path_def token_score_def upt_conv_Cons utf8_eval)
  note inst = length_limit_counts_bytes[of example_config utf8_utils int hello_table ?cs,
                unfolded f]
  from inst have same: "BuildOfst example_config utf8_utils int hello_table ?cs =
                          BuildOfst example_config utf8_utils int hello_table [''hello world'']"
    by blast
  from inst b c t have "walk hello_world_graph 0
       (phrase_path example_config utf8_utils int hello_table ?ws 0 (length ?ws)) 0"
    by blast
  with same b show ?thesis unfolding pp by simp
qed



text \<open>
  C10. A lookup that returns leaves a flag that was true true, changes a flag only when an
  arc of the state or of state 0 carries the token, and changes the score only when the
  state has an escape arc or an arc that carries the token, or state 0 has an arc that
  carries the token; in every other case the out-parameters keep the values they had on
  entry.
\<close>

theorem GetNextState_frame:
  assumes "GetNextState (Some g) s t sc sb eb = Inr r"
  shows "(sb \<longrightarrow> is_start_boundary r) \<and> (eb \<longrightarrow> is_end_boundary r) \<and>
         (is_start_boundary r \<noteq> sb \<or> is_end_boundary r \<noteq> eb \<longrightarrow>
            (\<exists>a\<in>set (arcs (states g ! nat s)). ilabel a = t) \<or>
            (\<exists>a\<in>set (arcs (states g ! 0)). ilabel a = t)) \<and>
         (score r \<noteq> sc \<longrightarrow>
            (\<exists>a\<in>set (arcs (states g ! nat s)). ilabel a = 0 \<or> ilabel a = t) \<or>
            (\<exists>a\<in>set (arcs (states g ! 0)). ilabel a = t))"
proof -
  let ?r0 = "\<lparr>next_state = 0, score = sc, is_start_boundary = sb, is_end_boundary = eb\<rparr>"
  from assms obtain m where as: "arcs_of g s = Some (arcs (states g ! nat s))"
    and m: "scan_cur g s t (arcs (states g ! nat s)) ?r0 = Inr m"
    by (auto simp: GetNextState_def arcs_of_def split: option.splits sum.splits if_splits)
  have r: "r = m \<or> (valid_state g 0 \<and> scan_zero g s t (arcs (states g ! 0)) m = Inr r)"
    using assms as m
    by (auto simp: GetNextState_def arcs_of_def split: option.splits if_splits)
  have flags: "(sb \<longrightarrow> is_start_boundary r) \<and> (eb \<longrightarrow> is_end_boundary r)"
    using scan_cur_flags[OF m] r scan_zero_flags[of g s t "arcs (states g ! 0)" m r]
    by auto
  have unchanged: "r = ?r0\<lparr>score := baseline sc (arcs (states g ! nat s))\<rparr>"
    if no: "\<forall>a\<in>set (arcs (states g ! nat s)). ilabel a \<noteq> t" "\<forall>a\<in>set (arcs (states g ! 0)). ilabel a \<noteq> t"
  proof -
    from no(1) have "\<forall>a\<in>set (arcs (states g ! nat s)). ilabel a = 0 \<or> ilabel a \<noteq> t" by blast
    from scan_cur_no_match[OF this, of g s ?r0] m
    have "m = ?r0\<lparr>score := baseline sc (arcs (states g ! nat s))\<rparr>" by simp
    with r scan_zero_no_match[OF no(2), of g s m] show ?thesis by auto
  qed
  have base: "baseline sc as = sc" if "\<forall>a\<in>set as. ilabel a \<noteq> 0" for as :: "'a StdArc list"
    using that by (induction as) auto
  have flags_only: "(\<exists>a\<in>set (arcs (states g ! nat s)). ilabel a = t) \<or>
            (\<exists>a\<in>set (arcs (states g ! 0)). ilabel a = t)"
    if "is_start_boundary r \<noteq> sb \<or> is_end_boundary r \<noteq> eb"
  proof (rule ccontr)
    assume "\<not> ?thesis"
    then have "r = ?r0\<lparr>score := baseline sc (arcs (states g ! nat s))\<rparr>"
      using unchanged by blast
    with that show False by simp
  qed
  have score_only: "(\<exists>a\<in>set (arcs (states g ! nat s)). ilabel a = 0 \<or> ilabel a = t) \<or>
            (\<exists>a\<in>set (arcs (states g ! 0)). ilabel a = t)"
    if "score r \<noteq> sc"
  proof (rule ccontr)
    assume n: "\<not> ?thesis"
    then have "r = ?r0\<lparr>score := baseline sc (arcs (states g ! nat s))\<rparr>"
      using unchanged by blast
    moreover from n have "baseline sc (arcs (states g ! nat s)) = sc"
      by (intro base) blast
    ultimately show False using that by simp
  qed
  from flags flags_only score_only show ?thesis by blast
qed

theorem GetNextState_frame_witness:
  "GetNextState (Some hello_world_graph) 0 7 9 True False =
     Inr \<lparr>next_state = 0, score = 9, is_start_boundary = True, is_end_boundary = False\<rparr> \<and>
   is_start_boundary \<lparr>next_state = 0, score = 9 :: int, is_start_boundary = True, is_end_boundary = False\<rparr>"
proof -
  have h: "GetNextState (Some hello_world_graph) 0 7 9 True False =
     Inr \<lparr>next_state = 0, score = 9, is_start_boundary = True, is_end_boundary = False\<rparr>"
    by (simp add: hello_world_graph_def graph_eval)
  from GetNextState_frame[OF h] h show ?thesis by simp
qed

end
